theory Spec2Isabelle
  imports Complex_Main "HOL-Library.Word"
begin

section \<open>The datagram endpoint as seen by the receiver\<close>

text \<open>
  A packet buffer is a \<^verbatim>\<open>std::array<char, N>\<close>: a byte list whose length is the
  fixed packet size \<open>N\<close>.
\<close>

type_synonym byte = "8 word"
type_synonym packet = "byte list"

text \<open>
  What one call of \<^verbatim>\<open>UdpServer::recv\<close> finds on the non-blocking socket: nothing
  (or a socket error), or the next queued datagram. One loop iteration of
  \<^verbatim>\<open>readUdp\<close> observes such an event and then reads the steady clock; the second
  component is that reading, \<^verbatim>\<open>end - start\<close> in microseconds.
\<close>

datatype recv_event = NoData | Dgram packet

type_synonym event = "recv_event \<times> nat"

text \<open>
  \<^verbatim>\<open>UdpServer::recv(msg, max_size)\<close> forwards to Winsock's \<^verbatim>\<open>::recv\<close> on a datagram
  socket. A datagram that fits is copied to the front of the buffer and its length is
  returned. A datagram longer than the buffer fills the buffer with its first part and
  the call fails with \<^verbatim>\<open>WSAEMSGSIZE\<close>, returning -1. With nothing queued the call
  returns -1 and leaves the buffer alone.
\<close>

definition recv :: "recv_event \<Rightarrow> packet \<Rightarrow> nat \<Rightarrow> packet \<times> int" where
  "recv ev msg max_size =
     (case ev of
        NoData \<Rightarrow> (msg, - 1)
      | Dgram d \<Rightarrow>
          if length d \<le> max_size then (d @ drop (length d) msg, int (length d))
          else (take max_size d @ drop max_size msg, - 1))"

section \<open>The fixed-size packet codec\<close>

text \<open>
  \<^verbatim>\<open>std::memcpy(&sequence_number, &recv_packet_temp[0], 4)\<close> on the little-endian
  hosts this Winsock code runs on: the first byte is the least significant. The copy
  reads four bytes, so the packet type has to hold at least four; for a shorter one the
  read leaves the array and the C++ program has no defined behaviour. The theorems
  about runs that parse a packet assume \<open>4 \<le> length pkt\<close>.
\<close>

fun le_word :: "byte list \<Rightarrow> 32 word" where
  "le_word [] = 0"
| "le_word (b # bs) = ucast b + 256 * le_word bs"

definition sequence_of :: "packet \<Rightarrow> 32 word" where
  "sequence_of buf = le_word (take 4 buf)"

section \<open>The timed freshest-packet receiver\<close>

text \<open>The local variables of \<^verbatim>\<open>UdpUtils::readUdp\<close>, with the widths the source gives them.\<close>

record readUdp_state =
  recv_packet :: packet
  recv_packet_temp :: packet
  udp_error :: bool
  bytes_received :: "16 word"
  highest_sequence_number :: "32 word"
  sequence_number :: "32 word"
  elapsed_time_us :: "16 word"

text \<open>
  The state at loop entry: \<^verbatim>\<open>T recv_packet_temp = {0}\<close>, \<^verbatim>\<open>udp_error = 1\<close>, the
  counters at zero.
\<close>

definition init_state :: "packet \<Rightarrow> readUdp_state" where
  "init_state pkt =
     \<lparr>recv_packet = pkt,
      recv_packet_temp = replicate (length pkt) 0,
      udp_error = True,
      bytes_received = 0,
      highest_sequence_number = 0,
      sequence_number = 0,
      elapsed_time_us = 0\<rparr>"

text \<open>
  The loop body up to the \<^verbatim>\<open>break\<close> test. The \<^verbatim>\<open>int\<close> that \<^verbatim>\<open>recv\<close> returns is
  narrowed to \<^verbatim>\<open>int16_t\<close>; the comparison with \<^verbatim>\<open>recv_packet.size()\<close> reads it back
  sign-extended. \<^verbatim>\<open>swap\<close> exchanges the two buffers. The source never assigns
  \<^verbatim>\<open>highest_sequence_number\<close> inside the loop, and neither does the model.
\<close>

definition poll_once :: "recv_event \<Rightarrow> readUdp_state \<Rightarrow> readUdp_state" where
  "poll_once ev st =
     (let (buf, n) = recv ev (recv_packet_temp st) (length (recv_packet_temp st));
          st1 = st\<lparr>recv_packet_temp := buf, bytes_received := word_of_int n\<rparr>
      in if sint (bytes_received st1) = int (length (recv_packet st1)) then
           (let st2 = st1\<lparr>udp_error := False,
                         sequence_number := sequence_of (recv_packet_temp st1)\<rparr>
            in if highest_sequence_number st2 < sequence_number st2
               then st2\<lparr>recv_packet := recv_packet_temp st2,
                        recv_packet_temp := recv_packet st2\<rparr>
               else st2)
         else st1)"

text \<open>
  The \<^verbatim>\<open>while (elapsed_time_us < timeout_us)\<close> loop over the events the call observes.
  The result is the final state and the number of iterations run; \<open>None\<close> means the
  events ran out while the loop was still polling. The clock reading is narrowed to
  \<^verbatim>\<open>uint16_t\<close> when it is stored.
\<close>

fun readUdp_loop :: "16 word \<Rightarrow> event list \<Rightarrow> readUdp_state \<Rightarrow> (readUdp_state \<times> nat) option" where
  "readUdp_loop timeout [] st =
     (if elapsed_time_us st < timeout then None else Some (st, 0))"
| "readUdp_loop timeout ((ev, clk) # evs) st =
     (if elapsed_time_us st < timeout then
        (let st1 = poll_once ev st
         in if \<not> udp_error st1 \<and> sint (bytes_received st1) = - 1 then Some (st1, 1)
            else map_option (\<lambda>(s, k). (s, Suc k))
                   (readUdp_loop timeout evs (st1\<lparr>elapsed_time_us := of_nat clk\<rparr>)))
      else Some (st, 0))"

subsection \<open>The timeout window\<close>

text \<open>
  \<^verbatim>\<open>uint16_t timeout_us = 1.2 * (1000000.0 / udp_rate)\<close> is computed in IEEE 754
  binary64: each operation returns the exact result rounded to 53 significant bits,
  ties to even. \<open>double_round\<close> is that rounding for values in \<open>[1, 2^53)\<close>, where
  every operand and result of this expression lies for a rate from 1 to 65535.
\<close>

fun ilog2 :: "nat \<Rightarrow> nat" where
  "ilog2 n = (if n < 2 then 0 else Suc (ilog2 (n div 2)))"

declare ilog2.simps [simp del]

definition round_half_even :: "rat \<Rightarrow> int" where
  "round_half_even q =
     (let f = \<lfloor>q\<rfloor>; r = q - of_int f
      in if r < 1 / 2 then f
         else if 1 / 2 < r then f + 1
         else if even f then f else f + 1)"

definition double_round :: "rat \<Rightarrow> rat" where
  "double_round x =
     (let s = 2 ^ (52 - ilog2 (nat \<lfloor>x\<rfloor>))
      in of_int (round_half_even (x * s)) / s)"

text \<open>
  The conversion of the product to \<^verbatim>\<open>uint16_t\<close> truncates towards zero; it is
  undefined when the truncated value does not fit, and for a rate of 0 (a division
  by zero). \<open>None\<close> is that undefined case.
\<close>

definition timeout_us :: "16 word \<Rightarrow> 16 word option" where
  "timeout_us udp_rate =
     (if udp_rate = 0 then None
      else (let y = double_round (double_round (6 / 5)
                      * double_round (1000000 / of_nat (unat udp_rate)))
            in if y < 65536 then Some (word_of_int \<lfloor>y\<rfloor>) else None))"

subsection \<open>The whole call\<close>

datatype 'a outcome = Returns 'a | Polling | Undefined

text \<open>
  \<^verbatim>\<open>readUdp(recv_packet, udp_rate, udp_recv)\<close>: the caller's buffer on return, the
  returned error flag and the number of loop iterations. \<open>Polling\<close>: the call has not
  returned after the given events.
\<close>

definition readUdp :: "packet \<Rightarrow> 16 word \<Rightarrow> event list \<Rightarrow> (packet \<times> bool \<times> nat) outcome" where
  "readUdp pkt udp_rate evs =
     (case timeout_us udp_rate of
        None \<Rightarrow> Undefined
      | Some timeout \<Rightarrow>
          (case readUdp_loop timeout evs (init_state pkt) of
             None \<Rightarrow> Polling
           | Some (st, k) \<Rightarrow> Returns (recv_packet st, udp_error st, k)))"

section \<open>Endpoint construction\<close>

text \<open>
  The resources a constructor holds: the \<^verbatim>\<open>addrinfo\<close> list from \<^verbatim>\<open>getaddrinfo\<close>, the
  socket, and the Winsock start-up count.
\<close>

record resources =
  addrinfo_held :: bool
  socket_open :: bool
  wsa_count :: nat

text \<open>Whether each system call of the constructor succeeds.\<close>

record sys_results =
  wsastartup_ok :: bool
  getaddrinfo_ok :: bool
  socket_ok :: bool
  ioctlsocket_ok :: bool
  bind_ok :: bool

datatype ctor_error = Invalid_Address | No_Socket | No_Nonblocking | No_Bind

definition WSAStartup :: "bool \<Rightarrow> resources \<Rightarrow> resources" where
  "WSAStartup ok r = (if ok then r\<lparr>wsa_count := Suc (wsa_count r)\<rparr> else r)"

definition WSACleanup :: "resources \<Rightarrow> resources" where
  "WSACleanup r = r\<lparr>wsa_count := wsa_count r - 1\<rparr>"

definition freeaddrinfo :: "resources \<Rightarrow> resources" where
  "freeaddrinfo r = r\<lparr>addrinfo_held := False\<rparr>"

definition closesocket :: "resources \<Rightarrow> resources" where
  "closesocket r = r\<lparr>socket_open := False\<rparr>"

text \<open>
  \<^verbatim>\<open>UdpClient::UdpClient\<close>: \<open>Inl\<close> is the thrown \<^verbatim>\<open>UdpClientServerRuntimeError\<close>
  together with what is still held when it propagates (the destructor of an object
  whose constructor throws does not run).
\<close>

definition UdpClient_ctor :: "sys_results \<Rightarrow> resources \<Rightarrow> ctor_error \<times> resources + resources" where
  "UdpClient_ctor sys r0 =
     (let r1 = WSAStartup (wsastartup_ok sys) r0;
          r2 = (if wsastartup_ok sys then r1 else WSACleanup r1)
      in if \<not> getaddrinfo_ok sys then Inl (Invalid_Address, r2)
         else (let r3 = r2\<lparr>addrinfo_held := True\<rparr>
               in if \<not> socket_ok sys then Inl (No_Socket, WSACleanup (freeaddrinfo r3))
                  else (let r4 = r3\<lparr>socket_open := True\<rparr>
                        in if \<not> ioctlsocket_ok sys then Inl (No_Nonblocking, WSACleanup r4)
                           else Inr r4)))"

definition UdpServer_ctor :: "sys_results \<Rightarrow> resources \<Rightarrow> ctor_error \<times> resources + resources" where
  "UdpServer_ctor sys r0 =
     (let r1 = WSAStartup (wsastartup_ok sys) r0;
          r2 = (if wsastartup_ok sys then r1 else WSACleanup r1)
      in if \<not> getaddrinfo_ok sys then Inl (Invalid_Address, WSACleanup r2)
         else (let r3 = r2\<lparr>addrinfo_held := True\<rparr>
               in if \<not> socket_ok sys then Inl (No_Socket, WSACleanup (freeaddrinfo r3))
                  else (let r4 = r3\<lparr>socket_open := True\<rparr>
                        in if \<not> ioctlsocket_ok sys then Inl (No_Nonblocking, WSACleanup r4)
                           else if \<not> bind_ok sys
                             then Inl (No_Bind, WSACleanup (closesocket (freeaddrinfo r4)))
                             else Inr r4)))"

section \<open>Describing a run\<close>

text \<open>
  The clock discipline of a run: readings never go back and advance by at most \<open>d\<close>
  microseconds from one loop iteration to the next, starting from \<open>c\<close>.
\<close>

fun steady :: "nat \<Rightarrow> nat \<Rightarrow> event list \<Rightarrow> bool" where
  "steady d c [] = True"
| "steady d c ((ev, clk) # evs) = (c \<le> clk \<and> clk \<le> c + d \<and> steady d clk evs)"

text \<open>A quiet socket polled once every \<open>d\<close> microseconds, \<open>n\<close> times.\<close>

definition idle_ticks :: "nat \<Rightarrow> nat \<Rightarrow> event list" where
  "idle_ticks d n = map (\<lambda>i. (NoData, d * i)) [1..<Suc n]"

text \<open>A datagram is size-valid when its length is the fixed packet size.\<close>

definition size_valid :: "nat \<Rightarrow> recv_event \<Rightarrow> bool" where
  "size_valid N ev = (case ev of NoData \<Rightarrow> False | Dgram d \<Rightarrow> length d = N)"

text \<open>The size-valid datagrams among the events, in arrival order.\<close>

fun valid_dgrams :: "nat \<Rightarrow> event list \<Rightarrow> packet list" where
  "valid_dgrams N [] = []"
| "valid_dgrams N ((NoData, clk) # evs) = valid_dgrams N evs"
| "valid_dgrams N ((Dgram d, clk) # evs) =
     (if length d = N then d # valid_dgrams N evs else valid_dgrams N evs)"

section \<open>The timeout window in double arithmetic\<close>

text \<open>\<open>ilog2 n\<close> is the position of the leading bit of \<open>n\<close>.\<close>

lemma ilog2_le: "n < 2 ^ Suc k \<Longrightarrow> ilog2 n \<le> k"
proof (induction k arbitrary: n)
  case 0
  then show ?case by (simp add: ilog2.simps)
next
  case (Suc k)
  show ?case
  proof (cases "n < 2")
    case True
    then show ?thesis by (simp add: ilog2.simps)
  next
    case False
    from Suc.prems have "n div 2 < 2 ^ Suc k" by simp
    then have "ilog2 (n div 2) \<le> k" by (rule Suc.IH)
    with False show ?thesis by (subst ilog2.simps) simp
  qed
qed

lemma ilog2_ge: "2 ^ k \<le> n \<Longrightarrow> k \<le> ilog2 n"
proof (induction k arbitrary: n)
  case 0
  then show ?case by simp
next
  case (Suc k)
  have "(2::nat) \<le> 2 ^ Suc k"
    by simp
  with Suc.prems have n2: "\<not> n < 2"
    by linarith
  from Suc.prems have "2 ^ k \<le> n div 2" by simp
  then have "k \<le> ilog2 (n div 2)" by (rule Suc.IH)
  with n2 show ?case by (subst ilog2.simps) simp
qed

lemma ilog2_eq: "2 ^ k \<le> n \<Longrightarrow> n < 2 ^ Suc k \<Longrightarrow> ilog2 n = k"
  using ilog2_le [of n k] ilog2_ge [of k n] by simp

text \<open>
  Rounding to the nearest integer is off by at most one half. On a fraction of integers
  it is decided by the remainder of the division.
\<close>

lemma round_half_even_err: "\<bar>of_int (round_half_even q) - q\<bar> \<le> 1 / 2"
proof -
  have "of_int \<lfloor>q\<rfloor> \<le> q" "q < of_int \<lfloor>q\<rfloor> + 1" by linarith+
  then show ?thesis
    unfolding round_half_even_def Let_def by (auto simp: abs_le_iff) 
qed

lemma round_half_even_frac:
  assumes "0 < d"
  shows "round_half_even (of_int n / of_int d) =
     (if 2 * (n mod d) < d then n div d
      else if d < 2 * (n mod d) then n div d + 1
      else if even (n div d) then n div d else n div d + 1)"
proof -
  have fl: "\<lfloor>(of_int n / of_int d :: rat)\<rfloor> = n div d"
    by (simp add: floor_divide_of_int_eq)
  have "(of_int n :: rat) = of_int (n div d) * of_int d + of_int (n mod d)"
    by (metis of_int_add of_int_mult div_mult_mod_eq)
  then have fr: "(of_int n / of_int d :: rat) - of_int (n div d) = of_int (n mod d) / of_int d"
    using assms by (simp add: field_simps)
  have "(of_int (n mod d) / of_int d < (1 / 2 :: rat)) = (of_int (2 * (n mod d)) < (of_int d :: rat))"
    using assms by (simp add: field_simps)
  then have lt: "(of_int (n mod d) / of_int d < (1 / 2 :: rat)) = (2 * (n mod d) < d)"
    by (simp only: of_int_less_iff)
  have "((1 / 2 :: rat) < of_int (n mod d) / of_int d) = ((of_int d :: rat) < of_int (2 * (n mod d)))"
    using assms by (simp add: field_simps)
  then have gt: "((1 / 2 :: rat) < of_int (n mod d) / of_int d) = (d < 2 * (n mod d))"
    by (simp only: of_int_less_iff)
  show ?thesis
    unfolding round_half_even_def Let_def fl fr lt gt by simp
qed

text \<open>
  \<open>double_round\<close> on a fraction \<open>n / d\<close> with \<open>2^k \<le> n / d < 2^(k+1)\<close>, in integer
  arithmetic; this is how the concrete windows below are computed.
\<close>

lemma double_round_frac:
  fixes n d :: nat
  assumes d: "0 < d" and lo: "2 ^ k * d \<le> n" and hi: "n < 2 ^ Suc k * d"
  shows "double_round (of_nat n / of_nat d) =
           of_int (let m = int n * 2 ^ (52 - k); q = m div int d; r = m mod int d
                   in if 2 * r < int d then q
                      else if int d < 2 * r then q + 1
                      else if even q then q else q + 1) / 2 ^ (52 - k)"
proof -
  have fl: "\<lfloor>(of_nat n / of_nat d :: rat)\<rfloor> = int (n div d)"
    by (simp add: floor_divide_of_nat_eq)
  have "2 ^ k \<le> n div d"
    using d lo by (simp add: less_eq_div_iff_mult_less_eq)
  moreover have "n div d < 2 ^ Suc k"
    using d hi by (simp add: div_less_iff_less_mult)
  ultimately have k: "ilog2 (n div d) = k"
    by (rule ilog2_eq)
  have "(of_nat n / of_nat d :: rat) * 2 ^ (52 - k) = of_int (int n * 2 ^ (52 - k)) / of_int (int d)"
    by simp
  then show ?thesis
    unfolding double_round_def Let_def fl using d
    by (simp only: k nat_int round_half_even_frac of_nat_0_less_iff)
qed

lemma double_round_6_5: "double_round (6 / 5) = 5404319552844595 / 4503599627370496"
  using double_round_frac [of 5 0 6] by (simp add: Let_def)

text \<open>
  Below \<open>2^21\<close> a double is at most \<open>2^-33\<close> away from the value it rounds. The
  computed product therefore differs from the exact \<open>1.2 \<times> a\<close> by less than
  \<open>1 / 65535\<close>, which is less than the distance of \<open>1200000 / r\<close> from the next
  integer unless \<open>r\<close> divides 1200000.
\<close>

lemma double_round_err:
  assumes "1 \<le> x" and "x < 2 ^ 21"
  shows "\<bar>double_round x - x\<bar> \<le> 1 / 2 ^ 33"
proof -
  define e where "e = ilog2 (nat \<lfloor>x\<rfloor>)"
  define s :: rat where "s = 2 ^ (52 - e)"
  have "\<lfloor>x\<rfloor> < 2097152"
    using assms(2) by (simp add: floor_less_iff)
  then have "nat \<lfloor>x\<rfloor> < 2097152"
    by linarith
  then have "nat \<lfloor>x\<rfloor> < 2 ^ Suc 20"
    by simp
  then have "e \<le> 20"
    unfolding e_def by (rule ilog2_le)
  then have "(2::rat) ^ 32 \<le> 2 ^ (52 - e)"
    by (intro power_increasing) simp_all
  then have s32: "2 ^ 32 \<le> s"
    by (simp add: s_def)
  then have s0: "0 < s"
    by (rule less_le_trans [rotated]) simp
  have dr: "double_round x = of_int (round_half_even (x * s)) / s"
    by (simp add: double_round_def Let_def s_def e_def)
  have "\<bar>of_int (round_half_even (x * s)) - x * s\<bar> \<le> 1 / 2"
    by (rule round_half_even_err)
  then have "\<bar>of_int (round_half_even (x * s)) - x * s\<bar> / s \<le> (1 / 2) / s"
    by (rule divide_right_mono) (use s0 in simp)
  moreover have "\<bar>of_int (round_half_even (x * s)) - x * s\<bar> / s = \<bar>double_round x - x\<bar>"
    using s0 by (simp add: dr abs_div_pos diff_divide_distrib)
  moreover have "(1 / 2) / s \<le> (1 / 2) / 2 ^ 32"
    using s32 by (intro divide_left_mono) simp_all
  ultimately have "\<bar>double_round x - x\<bar> \<le> (1 / 2) / 2 ^ 32"
    by linarith
  then show ?thesis by simp
qed

lemma product_close:
  fixes a :: rat
  assumes a1: "15 \<le> a" and a2: "a \<le> 1000000"
  defines "y \<equiv> double_round (double_round (6 / 5) * double_round a)"
  shows "\<bar>y - 6 / 5 * a\<bar> < 1 / 65535"
proof -
  define x where "x = double_round a"
  define c :: rat where "c = 5404319552844595 / 4503599627370496"
  have "\<bar>x - a\<bar> \<le> 1 / 2 ^ 33"
    unfolding x_def using a1 a2 by (intro double_round_err) simp_all
  then have x: "a - 1 / 2 ^ 33 \<le> x" "x \<le> a + 1 / 2 ^ 33"
    by linarith+
  have p1: "1 \<le> c * x" and p2: "c * x < 2 ^ 21"
    using x a1 a2 by (simp_all add: c_def)
  have "\<bar>double_round (c * x) - c * x\<bar> \<le> 1 / 2 ^ 33"
    using p1 p2 by (rule double_round_err)
  moreover have "y = double_round (c * x)"
    by (simp add: y_def x_def c_def double_round_6_5)
  ultimately have "c * x - 1 / 2 ^ 33 \<le> y" "y \<le> c * x + 1 / 2 ^ 33"
    by linarith+
  then have y: "5404319552844595 / 4503599627370496 * x - 1 / 8589934592 \<le> y"
    "y \<le> 5404319552844595 / 4503599627370496 * x + 1 / 8589934592"
    by (simp_all add: c_def)
  from x have x': "a - 1 / 8589934592 \<le> x" "x \<le> a + 1 / 8589934592"
    by simp_all
  from y x' a1 a2 show ?thesis
    by linarith
qed

lemma timeout_floor:
  fixes r :: nat and y :: rat
  assumes r: "1 \<le> r" "r \<le> 65535" and y: "\<bar>y - 1200000 / of_nat r\<bar> < 1 / 65535"
  shows "\<lfloor>y\<rfloor> = int (1200000 div r) \<or> (r dvd 1200000 \<and> \<lfloor>y\<rfloor> = int (1200000 div r) - 1)"
proof -
  define R Q M :: rat where "R = of_nat r" and "Q = of_nat (1200000 div r)"
    and "M = of_nat (1200000 mod r)"
  have R: "1 \<le> R" "R \<le> 65535"
    using r by (simp_all add: R_def)
  have "Q * R + M = of_nat (1200000 div r * r + 1200000 mod r)"
    by (simp only: R_def Q_def M_def of_nat_add of_nat_mult)
  also have "\<dots> = of_nat 1200000"
    by (simp only: div_mult_mod_eq)
  finally have QM: "1200000 = Q * R + M"
    by simp
  have "1200000 mod r < r"
    using r by simp
  then have "1200000 mod r + 1 \<le> r"
    by simp
  then have "(of_nat (1200000 mod r + 1) :: rat) \<le> of_nat r"
    by (simp only: of_nat_le_iff)
  then have M: "0 \<le> M" "M + 1 \<le> R"
    by (simp_all add: M_def R_def)
  have inv: "1 / 65535 \<le> 1 / R"
    using R by (simp add: field_simps)
  have "\<bar>y - 1200000 / R\<bar> < 1 / 65535"
    using y by (simp only: R_def)
  with inv have "y < 1200000 / R + 1 / R" "1200000 / R - 1 / R < y"
    by linarith+
  then have "y < (Q * R + M + 1) / R" "(Q * R + M - 1) / R < y"
    by (simp_all add: QM add_divide_distrib diff_divide_distrib)
  then have yR: "y * R < Q * R + M + 1" "Q * R + M - 1 < y * R"
    using R by (simp_all add: pos_less_divide_eq pos_divide_less_eq)
  from yR(1) M have "y * R < (Q + 1) * R"
    by (simp add: algebra_simps)
  then have up: "y < Q + 1"
    using R by (simp only: mult_less_cancel_right_pos)
  show ?thesis
  proof (cases "1200000 mod r = 0")
    case True
    then have dvd: "r dvd 1200000" by (simp add: dvd_eq_mod_eq_0)
    from True have "M = 0" by (simp add: M_def)
    with yR(2) R have "(Q - 1) * R < y * R"
      by (simp add: algebra_simps)
    then have lo: "Q - 1 < y"
      using R by (simp only: mult_less_cancel_right_pos)
    show ?thesis
    proof (cases "Q \<le> y")
      case True
      with up have "\<lfloor>y\<rfloor> = int (1200000 div r)"
        by (intro floor_unique) (simp_all add: Q_def)
      then show ?thesis by simp
    next
      case False
      with lo have "\<lfloor>y\<rfloor> = int (1200000 div r) - 1"
        by (intro floor_unique) (simp_all add: Q_def)
      with dvd show ?thesis by simp
    qed
  next
    case False
    then have "1 \<le> 1200000 mod r" by simp
    then have "(of_nat 1 :: rat) \<le> of_nat (1200000 mod r)"
      by (simp only: of_nat_le_iff)
    then have "1 \<le> M" by (simp add: M_def)
    with yR(2) have "Q * R < y * R"
      by simp
    then have "Q < y"
      using R by (simp only: mult_less_cancel_right_pos)
    with up have "\<lfloor>y\<rfloor> = int (1200000 div r)"
      by (intro floor_unique) (simp_all add: Q_def)
    then show ?thesis by simp
  qed
qed

lemma timeout_us_range:
  assumes "19 \<le> unat rate"
  shows "\<exists>t. timeout_us rate = Some t \<and>
           (unat t = 1200000 div unat rate \<or>
            (unat rate dvd 1200000 \<and> unat t = 1200000 div unat rate - 1))"
proof -
  define r where "r = unat rate"
  define a :: rat where "a = 1000000 / of_nat r"
  define y where "y = double_round (double_round (6 / 5) * double_round a)"
  have "unat rate < 2 ^ LENGTH(16)"
    by (rule unsigned_less)
  then have r: "19 \<le> r" "r \<le> 65535"
    using assms by (simp_all add: r_def)
  then have "(of_nat 19 :: rat) \<le> of_nat r" "(of_nat r :: rat) \<le> of_nat 65535"
    by (simp_all only: of_nat_le_iff)
  then have R: "(19::rat) \<le> of_nat r" "(of_nat r :: rat) \<le> 65535"
    by simp_all
  have nz: "rate \<noteq> 0"
    using assms by (auto simp: unat_eq_zero)
  have a: "15 \<le> a" "a \<le> 1000000"
    using R by (simp_all add: a_def field_simps)
  have "\<bar>y - 6 / 5 * a\<bar> < 1 / 65535"
    unfolding y_def using a by (rule product_close)
  moreover have "6 / 5 * a = 1200000 / of_nat r"
    by (simp add: a_def)
  ultimately have close: "\<bar>y - 1200000 / of_nat r\<bar> < 1 / 65535"
    by simp
  have fl: "\<lfloor>y\<rfloor> = int (1200000 div r) \<or> (r dvd 1200000 \<and> \<lfloor>y\<rfloor> = int (1200000 div r) - 1)"
    using r close by (intro timeout_floor) simp_all
  have "1200000 div 65535 \<le> 1200000 div r" "1200000 div r \<le> 1200000 div 19"
    using r by (simp_all only: div_le_mono2)
  then have q: "18 \<le> 1200000 div r" "1200000 div r \<le> 63157"
    by simp_all
  from fl have "\<lfloor>y\<rfloor> \<le> int (1200000 div r)"
    by (rule disjE) simp_all
  with q have "\<lfloor>y\<rfloor> < 65536"
    by linarith
  then have y16: "y < 65536"
    by (simp add: floor_less_iff)
  have t: "timeout_us rate = Some (word_of_int \<lfloor>y\<rfloor>)"
    using nz y16 by (simp add: timeout_us_def y_def a_def r_def Let_def)
  have w: "unat (word_of_int (int n) :: 16 word) = n" if "n < 65536" for n
    using that by (simp add: unat_of_nat)
  from fl show ?thesis
  proof
    assume "\<lfloor>y\<rfloor> = int (1200000 div r)"
    moreover have "unat (word_of_int (int (1200000 div r)) :: 16 word) = 1200000 div r"
      using q by (intro w) simp
    ultimately have "unat (word_of_int \<lfloor>y\<rfloor> :: 16 word) = 1200000 div r"
      by (simp only:)
    with t show ?thesis by (simp add: r_def)
  next
    assume h: "r dvd 1200000 \<and> \<lfloor>y\<rfloor> = int (1200000 div r) - 1"
    with q have "\<lfloor>y\<rfloor> = int (1200000 div r - 1)"
      by linarith
    moreover have "unat (word_of_int (int (1200000 div r - 1)) :: 16 word) = 1200000 div r - 1"
      using q by (intro w) simp
    ultimately have "unat (word_of_int \<lfloor>y\<rfloor> :: 16 word) = 1200000 div r - 1"
      by (simp only:)
    with t h show ?thesis by (simp add: r_def)
  qed
qed

text \<open>The window at some rates, computed step by step.\<close>

lemma floor_numeral_frac: "\<lfloor>(numeral a / numeral b :: rat)\<rfloor> = numeral a div numeral b"
  using floor_divide_of_int_eq [of "numeral a" "numeral b", where ?'a = rat] by simp

lemma timeout_us_200: "timeout_us 200 = Some 6000"
proof -
  have x: "double_round (5000) = 5000"
    using double_round_frac [of 1 12 5000] by (simp add: Let_def)
  have y: "double_round (3377699720527871875 / 562949953421312) = 6000"
    using double_round_frac [of 562949953421312 12 3377699720527871875] by (simp add: Let_def)
  show ?thesis
    by (simp add: timeout_us_def double_round_6_5 x y Let_def floor_numeral_frac)
qed

lemma timeout_us_192: "timeout_us 192 = Some 6249"
proof -
  have x: "double_round (15625 / 3) = 5726623061333333 / 1099511627776"
    using double_round_frac [of 3 12 15625] by (simp add: Let_def)
  have y: "double_round (30948500982134503925713642385135 / 4951760157141521099596496896) = 6871947673599999 / 1099511627776"
    using double_round_frac [of 4951760157141521099596496896 12 30948500982134503925713642385135] by (simp add: Let_def)
  show ?thesis
    by (simp add: timeout_us_def double_round_6_5 x y Let_def floor_numeral_frac)
qed

lemma timeout_us_350: "timeout_us 350 = Some 3428"
proof -
  have x: "double_round (20000 / 7) = 6282923587291429 / 2199023255552"
    using double_round_frac [of 7 11 20000] by (simp add: Let_def)
  have y: "double_round (33954926791827574313928212476255 / 9903520314283042199192993792) = 7539508304749715 / 2199023255552"
    using double_round_frac [of 9903520314283042199192993792 11 33954926791827574313928212476255] by (simp add: Let_def)
  show ?thesis
    by (simp add: timeout_us_def double_round_6_5 x y Let_def floor_numeral_frac)
qed

lemma timeout_us_10: "timeout_us 10 = None"
proof -
  have x: "double_round (100000) = 100000"
    using double_round_frac [of 1 16 100000] by (simp add: Let_def)
  have y: "double_round (16888498602639359375 / 140737488355328) = 120000"
    using double_round_frac [of 140737488355328 16 16888498602639359375] by (simp add: Let_def)
  show ?thesis
    by (simp add: timeout_us_def double_round_6_5 x y Let_def floor_numeral_frac)
qed

lemma timeout_us_19: "timeout_us 19 = Some 63157"
proof -
  have x: "double_round (1000000 / 19) = 7233629130105263 / 137438953472"
    using double_round_frac [of 19 15 1000000] by (simp add: Let_def)
  have y: "double_round (39092843345854111644143430603485 / 618970019642690137449562112) = 8680354956126315 / 137438953472"
    using double_round_frac [of 618970019642690137449562112 15 39092843345854111644143430603485] by (simp add: Let_def)
  show ?thesis
    by (simp add: timeout_us_def double_round_6_5 x y Let_def floor_numeral_frac)
qed


section \<open>One loop iteration\<close>

text \<open>
  The size test reads the narrowed byte count back as a signed 16-bit value. For a
  count between -1 and the buffer size it succeeds exactly when the count is the
  buffer size and that size is below \<open>2^15\<close>.
\<close>

lemma narrow_size_test:
  assumes "- 1 \<le> n" and "n \<le> int N"
  shows "sint (word_of_int n :: 16 word) = int N \<longleftrightarrow> n = int N \<and> N < 32768"
proof
  assume eq: "sint (word_of_int n :: 16 word) = int N"
  have "sint (word_of_int n :: 16 word) < 2 ^ (LENGTH(16) - 1)"
    by (rule sint_lt)
  with eq have N: "N < 32768"
    by simp
  then have "signed_take_bit 15 (int N) = int N"
    by (intro signed_take_bit_int_eq_self) simp_all
  with eq have "signed_take_bit 15 n = signed_take_bit 15 (int N)"
    by (simp add: sint_sbintrunc')
  then have "take_bit 16 n = take_bit 16 (int N)"
    by (simp add: signed_take_bit_eq_iff_take_bit_eq)
  then have m: "n mod 65536 = int N mod 65536"
    by (simp add: take_bit_eq_mod)
  show "n = int N \<and> N < 32768"
  proof (cases "0 \<le> n")
    case True
    with assms N m show ?thesis by simp
  next
    case False
    with assms have "n = - 1" by simp
    with m N show ?thesis by simp
  qed
next
  assume "n = int N \<and> N < 32768"
  then have "signed_take_bit 15 n = n" and "n = int N"
    by (simp_all add: signed_take_bit_int_eq_self)
  moreover have "sint (word_of_int n :: 16 word) = signed_take_bit 15 n"
    by (simp add: sint_sbintrunc')
  ultimately show "sint (word_of_int n :: 16 word) = int N"
    by (simp only:)
qed

lemma recv_bounds:
  "- 1 \<le> snd (recv ev msg (length msg)) \<and> snd (recv ev msg (length msg)) \<le> int (length msg)
   \<and> length (fst (recv ev msg (length msg))) = length msg"
  by (cases ev) (simp_all add: recv_def)

lemma recv_full_length:
  "snd (recv ev msg (length msg)) = int (length msg) \<longleftrightarrow> size_valid (length msg) ev"
  by (cases ev) (simp_all add: recv_def size_valid_def)

lemma size_test_iff:
  assumes "length (recv_packet_temp st) = length (recv_packet st)"
  shows "sint (word_of_int (snd (recv ev (recv_packet_temp st) (length (recv_packet_temp st)))) :: 16 word)
           = int (length (recv_packet st))
         \<longleftrightarrow> size_valid (length (recv_packet st)) ev \<and> length (recv_packet st) < 32768"
  using narrow_size_test [of "snd (recv ev (recv_packet_temp st) (length (recv_packet_temp st)))"
      "length (recv_packet st)"]
    recv_bounds [of ev "recv_packet_temp st"] recv_full_length [of ev "recv_packet_temp st"] assms
  by simp

lemma poll_once_rejects:
  assumes "length (recv_packet_temp st) = length (recv_packet st)"
    and "\<not> (size_valid (length (recv_packet st)) ev \<and> length (recv_packet st) < 32768)"
  shows "recv_packet (poll_once ev st) = recv_packet st"
    and "udp_error (poll_once ev st) = udp_error st"
    and "highest_sequence_number (poll_once ev st) = highest_sequence_number st"
    and "length (recv_packet_temp (poll_once ev st)) = length (recv_packet st)"
proof -
  have t: "sint (word_of_int (snd (recv ev (recv_packet_temp st) (length (recv_packet_temp st)))) :: 16 word)
           \<noteq> int (length (recv_packet st))"
    using size_test_iff [OF assms(1), of ev] assms(2) by blast
  show "recv_packet (poll_once ev st) = recv_packet st"
    and "udp_error (poll_once ev st) = udp_error st"
    and "highest_sequence_number (poll_once ev st) = highest_sequence_number st"
    and "length (recv_packet_temp (poll_once ev st)) = length (recv_packet st)"
    using t assms(1) recv_bounds [of ev "recv_packet_temp st"]
    by (simp_all add: poll_once_def Let_def split_beta)
qed

lemma poll_once_accepts:
  assumes "length (recv_packet_temp st) = length (recv_packet st)"
    and "size_valid (length (recv_packet st)) (Dgram d)" and "length (recv_packet st) < 32768"
  shows "recv_packet (poll_once (Dgram d) st) =
           (if highest_sequence_number st < sequence_of d then d else recv_packet st)"
    and "\<not> udp_error (poll_once (Dgram d) st)"
    and "highest_sequence_number (poll_once (Dgram d) st) = highest_sequence_number st"
    and "length (recv_packet_temp (poll_once (Dgram d) st)) = length (recv_packet st)"
proof -
  have d: "length d = length (recv_packet st)"
    using assms(2) by (simp add: size_valid_def)
  then have r: "recv (Dgram d) (recv_packet_temp st) (length (recv_packet_temp st)) = (d, int (length d))"
    using assms(1) by (simp add: recv_def)
  have t: "sint (word_of_int (int (length d)) :: 16 word) = int (length (recv_packet st))"
    using size_test_iff [OF assms(1), of "Dgram d"] assms(2,3) r by simp
  show "recv_packet (poll_once (Dgram d) st) =
           (if highest_sequence_number st < sequence_of d then d else recv_packet st)"
    and "\<not> udp_error (poll_once (Dgram d) st)"
    and "highest_sequence_number (poll_once (Dgram d) st) = highest_sequence_number st"
    and "length (recv_packet_temp (poll_once (Dgram d) st)) = length (recv_packet st)"
    using t d by (simp_all add: poll_once_def r Let_def)
qed

lemma poll_once_length:
  assumes "length (recv_packet_temp st) = length (recv_packet st)"
  shows "length (recv_packet (poll_once ev st)) = length (recv_packet st)"
    and "length (recv_packet_temp (poll_once ev st)) = length (recv_packet st)"
  using assms recv_bounds [of ev "recv_packet_temp st"]
  by (simp_all add: poll_once_def Let_def split_beta)

lemma poll_once_error_mono: "\<not> udp_error st \<Longrightarrow> \<not> udp_error (poll_once ev st)"
  by (simp add: poll_once_def Let_def split_beta)

lemma poll_once_bytes:
  "bytes_received (poll_once ev st) =
     word_of_int (snd (recv ev (recv_packet_temp st) (length (recv_packet_temp st))))"
  by (simp add: poll_once_def Let_def split_beta)

lemma init_state_simps:
  "recv_packet (init_state pkt) = pkt"
  "length (recv_packet_temp (init_state pkt)) = length pkt"
  "udp_error (init_state pkt)"
  "highest_sequence_number (init_state pkt) = 0"
  "elapsed_time_us (init_state pkt) = 0"
  by (simp_all add: init_state_def)

lemma readUdp_Returns:
  assumes "readUdp pkt udp_rate evs = Returns (pkt', err, k)"
  obtains t st' where "timeout_us udp_rate = Some t"
    and "readUdp_loop t evs (init_state pkt) = Some (st', k)"
    and "pkt' = recv_packet st'" and "err = udp_error st'"
  using assms by (auto simp: readUdp_def split: option.splits)

section \<open>The polling loop\<close>

text \<open>
  The ways one call of the loop on a non-empty event list can end, and what a run
  without size-valid datagrams, or with them, does to the flag and the buffer.
\<close>

lemma loop_expired: "\<not> elapsed_time_us st < t \<Longrightarrow> readUdp_loop t evs st = Some (st, 0)"
  by (cases evs) auto

lemma loop_Cons_cases:
  assumes "readUdp_loop t ((ev, clk) # evs) st = Some (st', k)"
  obtains (expired) "\<not> elapsed_time_us st < t" and "st' = st" and "k = 0"
  | (break) "elapsed_time_us st < t" and "st' = poll_once ev st" and "k = 1"
      and "\<not> udp_error (poll_once ev st)"
  | (continue) k' where "elapsed_time_us st < t" and "k = Suc k'"
      and "readUdp_loop t evs ((poll_once ev st)\<lparr>elapsed_time_us := of_nat clk\<rparr>) = Some (st', k')"
  using assms by (auto simp: Let_def split: if_splits)

lemma valid_dgrams_empty_iff:
  "valid_dgrams N evs = [] \<longleftrightarrow> (\<forall>e \<in> set evs. \<not> size_valid N (fst e))"
  by (induction N evs rule: valid_dgrams.induct) (simp_all add: size_valid_def)

lemma valid_dgrams_take_empty:
  "valid_dgrams N evs = [] \<Longrightarrow> valid_dgrams N (take k evs) = []"
  by (auto simp: valid_dgrams_empty_iff dest: in_set_takeD)

lemma loop_no_valid:
  assumes "readUdp_loop t evs st = Some (st', k)"
    and "length (recv_packet_temp st) = length (recv_packet st)"
    and "\<forall>e \<in> set (take k evs). \<not> size_valid (length (recv_packet st)) (fst e)"
  shows "recv_packet st' = recv_packet st \<and> udp_error st' = udp_error st"
  using assms
proof (induction evs arbitrary: st k)
  case Nil
  then show ?case by (simp split: if_splits)
next
  case (Cons e evs)
  obtain ev clk where e: "e = (ev, clk)" by (cases e)
  from Cons.prems(1) [unfolded e] show ?case
  proof (cases rule: loop_Cons_cases)
    case expired
    then show ?thesis by simp
  next
    case break
    with Cons.prems(3) have "\<not> size_valid (length (recv_packet st)) ev"
      by (simp add: e)
    with break Cons.prems(2) show ?thesis
      by (simp add: poll_once_rejects)
  next
    case (continue k')
    let ?st1 = "poll_once ev st"
    from continue Cons.prems(3) have inv: "\<not> size_valid (length (recv_packet st)) ev"
      and rest: "\<forall>e \<in> set (take k' evs). \<not> size_valid (length (recv_packet st)) (fst e)"
      by (simp_all add: e)
    from inv Cons.prems(2) have st1: "recv_packet ?st1 = recv_packet st"
      "udp_error ?st1 = udp_error st" "length (recv_packet_temp ?st1) = length (recv_packet st)"
      by (simp_all add: poll_once_rejects)
    have "recv_packet st' = recv_packet (?st1\<lparr>elapsed_time_us := of_nat clk\<rparr>)
        \<and> udp_error st' = udp_error (?st1\<lparr>elapsed_time_us := of_nat clk\<rparr>)"
      using continue(3) st1 rest by (intro Cons.IH) simp_all
    with st1 show ?thesis by simp
  qed
qed

lemma loop_flag:
  assumes "readUdp_loop t evs st = Some (st', k)"
    and "length (recv_packet_temp st) = length (recv_packet st)"
    and "length (recv_packet st) < 32768"
  shows "udp_error st' =
           (udp_error st \<and> (\<forall>e \<in> set (take k evs). \<not> size_valid (length (recv_packet st)) (fst e)))"
  using assms
proof (induction evs arbitrary: st k)
  case Nil
  then show ?case by (simp split: if_splits)
next
  case (Cons e evs)
  obtain ev clk where e: "e = (ev, clk)" by (cases e)
  let ?st1 = "poll_once ev st"
  have len: "length (recv_packet ?st1) = length (recv_packet st)"
    "length (recv_packet_temp ?st1) = length (recv_packet st)"
    using Cons.prems(2) by (simp_all add: poll_once_length)
  have flag: "udp_error ?st1 = (udp_error st \<and> \<not> size_valid (length (recv_packet st)) ev)"
  proof (cases "size_valid (length (recv_packet st)) ev")
    case True
    then obtain d where "ev = Dgram d"
      by (cases ev) (simp_all add: size_valid_def)
    with True Cons.prems(2,3) show ?thesis
      by (simp add: poll_once_accepts)
  next
    case False
    with Cons.prems(2) show ?thesis
      by (simp add: poll_once_rejects)
  qed
  from Cons.prems(1) [unfolded e] show ?case
  proof (cases rule: loop_Cons_cases)
    case expired
    then show ?thesis by simp
  next
    case break
    with flag show ?thesis by (simp add: e)
  next
    case (continue k')
    have "udp_error st' =
        (udp_error (?st1\<lparr>elapsed_time_us := of_nat clk\<rparr>) \<and>
         (\<forall>e \<in> set (take k' evs).
            \<not> size_valid (length (recv_packet (?st1\<lparr>elapsed_time_us := of_nat clk\<rparr>))) (fst e)))"
      using continue(3) len Cons.prems(3) by (intro Cons.IH) simp_all
    with flag len continue(2) show ?thesis by (auto simp: e)
  qed
qed

lemma loop_zero_sequence:
  assumes "readUdp_loop t evs st = Some (st', k)"
    and "length (recv_packet_temp st) = length (recv_packet st)"
    and "length (recv_packet st) < 32768"
    and "highest_sequence_number st = 0"
    and "\<forall>d \<in> set (valid_dgrams (length (recv_packet st)) (take k evs)). sequence_of d = 0"
  shows "recv_packet st' = recv_packet st"
  using assms
proof (induction evs arbitrary: st k)
  case Nil
  then show ?case by (simp split: if_splits)
next
  case (Cons e evs)
  obtain ev clk where e: "e = (ev, clk)" by (cases e)
  let ?st1 = "poll_once ev st"
  have len: "length (recv_packet ?st1) = length (recv_packet st)"
    "length (recv_packet_temp ?st1) = length (recv_packet st)"
    using Cons.prems(2) by (simp_all add: poll_once_length)
  have keep: "recv_packet ?st1 = recv_packet st \<and> highest_sequence_number ?st1 = 0"
    if z: "\<forall>d \<in> set (valid_dgrams (length (recv_packet st)) [(ev, clk)]). sequence_of d = 0"
  proof (cases "size_valid (length (recv_packet st)) ev")
    case True
    then obtain d where "ev = Dgram d" and "length d = length (recv_packet st)"
      by (cases ev) (simp_all add: size_valid_def)
    with True z Cons.prems(2,3,4) show ?thesis
      by (simp add: poll_once_accepts)
  next
    case False
    with Cons.prems(2,4) show ?thesis
      by (simp add: poll_once_rejects)
  qed
  from Cons.prems(1) [unfolded e] show ?case
  proof (cases rule: loop_Cons_cases)
    case expired
    then show ?thesis by simp
  next
    case break
    with keep Cons.prems(5) show ?thesis by (simp add: e)
  next
    case (continue k')
    have "valid_dgrams (length (recv_packet st)) (take k (e # evs)) =
        valid_dgrams (length (recv_packet st)) [(ev, clk)]
        @ valid_dgrams (length (recv_packet st)) (take k' evs)"
      by (cases ev) (simp_all add: e continue(2))
    with Cons.prems(5)
    have z: "\<forall>d \<in> set (valid_dgrams (length (recv_packet st)) [(ev, clk)]). sequence_of d = 0"
      and rest: "\<forall>d \<in> set (valid_dgrams (length (recv_packet st)) (take k' evs)). sequence_of d = 0"
      by simp_all
    have "recv_packet st' = recv_packet (?st1\<lparr>elapsed_time_us := of_nat clk\<rparr>)"
      using continue(3) len Cons.prems(3) keep [OF z] rest by (intro Cons.IH) simp_all
    with keep [OF z] show ?thesis by simp
  qed
qed

lemma loop_keeps_last_nonzero:
  assumes "readUdp_loop t evs st = Some (st', k)"
    and "length (recv_packet_temp st) = length (recv_packet st)"
    and "length (recv_packet st) < 32768"
    and "highest_sequence_number st = 0"
  shows "recv_packet st' =
           foldl (\<lambda>p d. if 0 < sequence_of d then d else p) (recv_packet st)
             (valid_dgrams (length (recv_packet st)) (take k evs))"
  using assms
proof (induction evs arbitrary: st k)
  case Nil
  then show ?case by (simp split: if_splits)
next
  case (Cons e evs)
  obtain ev clk where e: "e = (ev, clk)" by (cases e)
  let ?N = "length (recv_packet st)"
  let ?f = "\<lambda>p d. if 0 < sequence_of d then d else p"
  let ?st1 = "poll_once ev st"
  have len: "length (recv_packet ?st1) = ?N" "length (recv_packet_temp ?st1) = ?N"
    using Cons.prems(2) by (simp_all add: poll_once_length)
  have one: "recv_packet ?st1 = foldl ?f (recv_packet st) (valid_dgrams ?N [(ev, clk)])
      \<and> highest_sequence_number ?st1 = 0"
  proof (cases "size_valid ?N ev")
    case True
    then obtain d where "ev = Dgram d" and "length d = ?N"
      by (cases ev) (simp_all add: size_valid_def)
    with True Cons.prems(2,3,4) show ?thesis
      by (simp add: poll_once_accepts)
  next
    case False
    with Cons.prems(2,4) show ?thesis
      by (cases ev) (simp_all add: poll_once_rejects size_valid_def)
  qed
  from Cons.prems(1) [unfolded e] show ?case
  proof (cases rule: loop_Cons_cases)
    case expired
    then show ?thesis by simp
  next
    case break
    with one show ?thesis by (simp add: e)
  next
    case (continue k')
    have split: "valid_dgrams ?N (take k (e # evs)) =
        valid_dgrams ?N [(ev, clk)] @ valid_dgrams ?N (take k' evs)"
      by (cases ev) (simp_all add: e continue(2))
    have "recv_packet st' =
        foldl ?f (recv_packet (?st1\<lparr>elapsed_time_us := of_nat clk\<rparr>))
          (valid_dgrams (length (recv_packet (?st1\<lparr>elapsed_time_us := of_nat clk\<rparr>)))
             (take k' evs))"
      using continue(3) len Cons.prems(3) one by (intro Cons.IH) simp_all
    with one len split show ?thesis by simp
  qed
qed

lemma loop_buffer_origin:
  assumes "readUdp_loop t evs st = Some (st', k)"
    and "length (recv_packet_temp st) = length (recv_packet st)"
  shows "recv_packet st' = recv_packet st
       \<or> recv_packet st' \<in> set (valid_dgrams (length (recv_packet st)) (take k evs))"
  using assms
proof (induction evs arbitrary: st k)
  case Nil
  then show ?case by (simp split: if_splits)
next
  case (Cons e evs)
  obtain ev clk where e: "e = (ev, clk)" by (cases e)
  let ?N = "length (recv_packet st)"
  let ?st1 = "poll_once ev st"
  have len: "length (recv_packet ?st1) = ?N" "length (recv_packet_temp ?st1) = ?N"
    using Cons.prems(2) by (simp_all add: poll_once_length)
  have one: "recv_packet ?st1 = recv_packet st \<or> recv_packet ?st1 \<in> set (valid_dgrams ?N [(ev, clk)])"
  proof (cases "size_valid ?N ev \<and> ?N < 32768")
    case True
    then obtain d where "ev = Dgram d" and "length d = ?N"
      by (cases ev) (simp_all add: size_valid_def)
    with True Cons.prems(2) show ?thesis
      by (simp add: poll_once_accepts)
  next
    case False
    with Cons.prems(2) show ?thesis
      by (simp add: poll_once_rejects)
  qed
  from Cons.prems(1) [unfolded e] show ?case
  proof (cases rule: loop_Cons_cases)
    case expired
    then show ?thesis by simp
  next
    case break
    with one show ?thesis by (cases ev) (auto simp: e)
  next
    case (continue k')
    have split: "valid_dgrams ?N (take k (e # evs)) =
        valid_dgrams ?N [(ev, clk)] @ valid_dgrams ?N (take k' evs)"
      by (cases ev) (simp_all add: e continue(2))
    have "recv_packet st' = recv_packet (?st1\<lparr>elapsed_time_us := of_nat clk\<rparr>)
        \<or> recv_packet st' \<in> set (valid_dgrams
              (length (recv_packet (?st1\<lparr>elapsed_time_us := of_nat clk\<rparr>))) (take k' evs))"
      using continue(3) len by (intro Cons.IH) simp_all
    with one len split show ?thesis by auto
  qed
qed

subsection \<open>Leaving the loop\<close>

text \<open>
  If the clock advances by at most \<open>d\<close> per iteration and the window plus \<open>d\<close>
  fits the 16-bit counter, the narrowed reading cannot skip the interval between the
  timeout and \<open>2^16\<close>: the loop ends no later than the first reading at or past the
  timeout.
\<close>

lemma elapsed_less: "c < 65536 \<Longrightarrow> ((of_nat c :: 16 word) < t) = (c < unat t)"
  by (simp add: word_less_nat_alt unat_of_nat)

lemma loop_returns:
  assumes "steady d c evs" and "elapsed_time_us st = of_nat c" and "c < unat t"
    and "unat t + d \<le> 65536" and "\<exists>e \<in> set evs. unat t \<le> snd e"
  shows "\<exists>st' k. readUdp_loop t evs st = Some (st', k) \<and> 0 < k \<and> k \<le> length evs
           \<and> snd (evs ! (k - 1)) < unat t + d"
  using assms
proof (induction evs arbitrary: c st)
  case Nil
  then show ?case by simp
next
  case (Cons e evs)
  obtain ev clk where e: "e = (ev, clk)" by (cases e)
  from Cons.prems(1) have clk: "c \<le> clk" "clk \<le> c + d" and steady: "steady d clk evs"
    by (simp_all add: e)
  have "unat t < 2 ^ LENGTH(16)"
    by (rule unsigned_less)
  with Cons.prems(3) have "c < 65536"
    by simp
  with Cons.prems(2,3) have run: "elapsed_time_us st < t"
    by (simp add: elapsed_less)
  let ?st1 = "poll_once ev st"
  let ?st2 = "?st1\<lparr>elapsed_time_us := of_nat clk\<rparr>"
  show ?case
  proof (cases "\<not> udp_error ?st1 \<and> sint (bytes_received ?st1) = - 1")
    case True
    with run have "readUdp_loop t (e # evs) st = Some (?st1, 1)"
      by (simp add: e)
    with clk Cons.prems(3) show ?thesis
      by (simp add: e)
  next
    case False
    with run have step: "readUdp_loop t (e # evs) st =
        map_option (\<lambda>(s, k). (s, Suc k)) (readUdp_loop t evs ?st2)"
      by (auto simp: e Let_def)
    show ?thesis
    proof (cases "clk < unat t")
      case True
      with Cons.prems(5) have "\<exists>e \<in> set evs. unat t \<le> snd e"
        by (auto simp: e)
      with steady True Cons.prems(4)
      obtain st' k where r: "readUdp_loop t evs ?st2 = Some (st', k)" "0 < k" "k \<le> length evs"
        "snd (evs ! (k - 1)) < unat t + d"
        using Cons.IH [of clk ?st2] by auto
      from r(2) have "(e # evs) ! k = evs ! (k - 1)"
        by (cases k) simp_all
      with r step show ?thesis
        by auto
    next
      case False
      from clk Cons.prems(3,4) have "clk < 65536"
        by simp
      with False have "\<not> elapsed_time_us ?st2 < t"
        by (simp add: elapsed_less)
      then have "readUdp_loop t evs ?st2 = Some (?st2, 0)"
        by (rule loop_expired)
      with step clk Cons.prems(3) show ?thesis
        by (simp add: e)
    qed
  qed
qed

text \<open>
  With a window of 63157 microseconds (19 Hz) and one iteration every 4096 microseconds,
  every narrowed reading is a multiple of 4096 below \<open>2^16\<close>, hence at most 61440:
  on a quiet socket the loop condition never fails.
\<close>

lemma tick_below_window: "(of_nat (4096 * j) :: 16 word) < 63157"
proof -
  have "(4096 * j) mod (4096 * 16) = 4096 * (j mod 16)"
    by (simp only: mult_mod_right)
  moreover have "j mod 16 \<le> 15"
    by simp
  ultimately have "(4096 * j) mod 65536 < 63157"
    by simp
  then show ?thesis
    by (simp add: word_less_nat_alt unat_of_nat del: of_nat_mult)
qed

lemma slow_poll_loop:
  assumes "udp_error st" and "elapsed_time_us st = of_nat (4096 * j)"
  shows "readUdp_loop 63157 (map (\<lambda>i. (NoData, 4096 * i)) [Suc j..<Suc j + n]) st = None"
  using assms
proof (induction n arbitrary: j st)
  case 0
  then show ?case
    by (simp add: tick_below_window del: of_nat_mult)
next
  case (Suc n)
  let ?st1 = "poll_once NoData st"
  have e: "udp_error ?st1"
    using Suc.prems(1) by (simp add: poll_once_def recv_def Let_def)
  have "readUdp_loop 63157 (map (\<lambda>i. (NoData, 4096 * i)) [Suc (Suc j)..<Suc (Suc j) + n])
          (?st1\<lparr>elapsed_time_us := of_nat (4096 * Suc j)\<rparr>) = None"
    using e by (intro Suc.IH) (simp_all del: of_nat_mult)
  moreover have "[Suc j..<Suc j + Suc n] = Suc j # [Suc (Suc j)..<Suc (Suc j) + n]"
    by (simp add: upt_conv_Cons)
  ultimately show ?case
    using Suc.prems(2) e by (simp add: tick_below_window Let_def del: upt_Suc of_nat_mult)
qed

section \<open>Inside the 16-bit ranges\<close>

text \<open>
  What a call does when the 16-bit variables do not overflow. For packets of 4 to 32767
  bytes, a call that returns after \<open>k\<close> iterations returns true exactly when none of
  them received a size-valid datagram.
\<close>

lemma readUdp_error_flag_iff:
  assumes "4 \<le> length pkt" and "length pkt < 32768"
    and "readUdp pkt udp_rate evs = Returns (pkt', err, k)"
  shows "err = (valid_dgrams (length pkt) (take k evs) = [])"
proof -
  from assms(3) obtain t st' where loop: "readUdp_loop t evs (init_state pkt) = Some (st', k)"
    and res: "err = udp_error st'"
    by (rule readUdp_Returns)
  from loop_flag [OF loop] assms(2) res show ?thesis
    by (simp add: init_state_simps valid_dgrams_empty_iff)
qed

text \<open>
  A call that received no size-valid datagram returns true with the caller's buffer
  unchanged; and if the clock advances by at most \<open>d\<close> per iteration, the window plus
  \<open>d\<close> is at most 65536 and the events reach the end of the window, such a call
  does return.
\<close>

lemma readUdp_no_valid_unchanged:
  "(readUdp pkt udp_rate evs = Returns (pkt', err, k) \<longrightarrow>
      valid_dgrams (length pkt) (take k evs) = [] \<longrightarrow> err \<and> pkt' = pkt)
   \<and> (19 \<le> unat udp_rate \<longrightarrow> timeout_us udp_rate = Some t \<longrightarrow> steady d 0 evs \<longrightarrow>
        unat t + d \<le> 65536 \<longrightarrow> evs \<noteq> [] \<longrightarrow> unat t \<le> snd (last evs) \<longrightarrow>
        valid_dgrams (length pkt) evs = [] \<longrightarrow>
        (\<exists>n. readUdp pkt udp_rate evs = Returns (pkt, True, n)))"
proof -
  have part: "err' \<and> p = pkt"
    if r: "readUdp pkt udp_rate evs = Returns (p, err', n)"
      and v: "valid_dgrams (length pkt) (take n evs) = []" for p err' n
  proof -
    from r obtain t' st' where loop: "readUdp_loop t' evs (init_state pkt) = Some (st', n)"
      and res: "p = recv_packet st'" "err' = udp_error st'"
      by (rule readUdp_Returns)
    from loop_no_valid [OF loop] v res show ?thesis
      by (simp add: init_state_simps valid_dgrams_empty_iff)
  qed
  have total: "\<exists>n. readUdp pkt udp_rate evs = Returns (pkt, True, n)"
    if h: "19 \<le> unat udp_rate" "timeout_us udp_rate = Some t" "steady d 0 evs"
      "unat t + d \<le> 65536" "evs \<noteq> []" "unat t \<le> snd (last evs)"
      and v: "valid_dgrams (length pkt) evs = []"
  proof -
    have "unat udp_rate < 2 ^ LENGTH(16)"
      by (rule unsigned_less)
    then have "1200000 div 65535 \<le> 1200000 div unat udp_rate"
      using h(1) by (intro div_le_mono2) simp_all
    then have "18 \<le> 1200000 div unat udp_rate"
      by simp
    with timeout_us_range [OF h(1)] h(2) have t0: "0 < unat t"
      by auto
    from h(5,6) have "\<exists>e \<in> set evs. unat t \<le> snd e"
      by (intro bexI [of _ "last evs"]) simp_all
    with h(3,4) t0
    obtain st' n where "readUdp_loop t evs (init_state pkt) = Some (st', n)"
      using loop_returns [of d 0 evs "init_state pkt" t] by (auto simp: init_state_simps)
    with h(2) have r: "readUdp pkt udp_rate evs = Returns (recv_packet st', udp_error st', n)"
      by (simp add: readUdp_def)
    from v have "valid_dgrams (length pkt) (take n evs) = []"
      by (rule valid_dgrams_take_empty)
    with part [OF r] r show ?thesis
      by auto
  qed
  from part total show ?thesis
    by blast
qed

text \<open>
  For packets of 4 to 32767 bytes, a call whose size-valid datagrams all carry sequence
  number 0 returns false with the caller's buffer unchanged.
\<close>

lemma readUdp_zero_sequence_untouched:
  assumes "4 \<le> length pkt" and "length pkt < 32768"
    and "readUdp pkt udp_rate evs = Returns (pkt', err, k)"
    and "valid_dgrams (length pkt) (take k evs) \<noteq> []"
    and "\<forall>d \<in> set (valid_dgrams (length pkt) (take k evs)). sequence_of d = 0"
  shows "\<not> err \<and> pkt' = pkt"
proof -
  from assms(3) obtain t st' where loop: "readUdp_loop t evs (init_state pkt) = Some (st', k)"
    and res: "pkt' = recv_packet st'" "err = udp_error st'"
    by (rule readUdp_Returns)
  from loop_flag [OF loop] assms(2,4) res have "\<not> err"
    by (simp add: init_state_simps valid_dgrams_empty_iff)
  moreover from loop_zero_sequence [OF loop] assms(2,5) res have "pkt' = pkt"
    by (simp add: init_state_simps)
  ultimately show ?thesis
    by simp
qed

text \<open>
  Under the same clock discipline a call returns whatever arrives, and the clock
  reading of its last iteration is below the window plus \<open>d\<close>.
\<close>

lemma readUdp_returns_in_window:
  assumes "4 \<le> length pkt" and "19 \<le> unat udp_rate" and "timeout_us udp_rate = Some t"
    and "steady d 0 evs" and "unat t + d \<le> 65536"
    and "evs \<noteq> []" and "unat t \<le> snd (last evs)"
  shows "\<exists>pkt' err k. readUdp pkt udp_rate evs = Returns (pkt', err, k)
           \<and> 0 < k \<and> k \<le> length evs \<and> snd (evs ! (k - 1)) < unat t + d"
proof -
  have "unat udp_rate < 2 ^ LENGTH(16)"
    by (rule unsigned_less)
  then have "1200000 div 65535 \<le> 1200000 div unat udp_rate"
    using assms(2) by (intro div_le_mono2) simp_all
  then have "18 \<le> 1200000 div unat udp_rate"
    by simp
  with timeout_us_range [OF assms(2)] assms(3) have t0: "0 < unat t"
    by auto
  from assms(6,7) have "\<exists>e \<in> set evs. unat t \<le> snd e"
    by (intro bexI [of _ "last evs"]) simp_all
  with assms(4,5) t0
  obtain st' k where "readUdp_loop t evs (init_state pkt) = Some (st', k)" "0 < k" "k \<le> length evs"
    "snd (evs ! (k - 1)) < unat t + d"
    using loop_returns [of d 0 evs "init_state pkt" t] by (auto simp: init_state_simps)
  with assms(3) show ?thesis
    by (simp add: readUdp_def)
qed

section \<open>Freshness arbitration\<close>

text \<open>
  What the loop does retain, for packets of 4 to 32767 bytes: starting from the caller's
  buffer, every size-valid datagram with a non-zero sequence number replaces the
  buffer, so the last of them is the one left on return.
\<close>

lemma readUdp_keeps_last_nonzero:
  assumes "4 \<le> length pkt" and "length pkt < 32768"
    and "readUdp pkt udp_rate evs = Returns (pkt', err, k)"
  shows "pkt' = foldl (\<lambda>p d. if 0 < sequence_of d then d else p) pkt
                  (valid_dgrams (length pkt) (take k evs))"
proof -
  from assms(3) obtain t st' where loop: "readUdp_loop t evs (init_state pkt) = Some (st', k)"
    and res: "pkt' = recv_packet st'"
    by (rule readUdp_Returns)
  from loop_keeps_last_nonzero [OF loop] assms(2) res show ?thesis
    by (simp add: init_state_simps)
qed

text \<open>
  C1. The claim: of the size-valid datagrams of one call, the one with the highest
  sequence number is left in the caller's buffer; sequence 5 followed by sequence 3
  leaves the sequence-5 packet. The loop compares every sequence number with
  \<^verbatim>\<open>highest_sequence_number\<close>, which stays 0, so at a rate of 200 Hz and with 8-byte
  packets the later packet with sequence 3 replaces the packet with sequence 5.
\<close>

theorem readUdp_lower_sequence_replaces:
  "readUdp [0, 0, 0, 0, 0, 0, 0, 0] 200
     [(Dgram [5, 0, 0, 0, 1, 1, 1, 1], 10), (Dgram [3, 0, 0, 0, 2, 2, 2, 2], 20), (NoData, 30)]
   = Returns ([3, 0, 0, 0, 2, 2, 2, 2], False, 3)"
  by (simp add: readUdp_def timeout_us_200 init_state_def poll_once_def recv_def
      sequence_of_def Let_def)

text \<open>
  C2. The claim: a size-valid packet whose sequence number does not exceed the highest one
  retained so far never replaces the buffer, so of two packets with sequence 5 the
  first stays. In the code the second packet with sequence 5 replaces the first.
\<close>

theorem readUdp_duplicate_replaces:
  "readUdp [0, 0, 0, 0, 0, 0, 0, 0] 200
     [(Dgram [5, 0, 0, 0, 1, 1, 1, 1], 10), (Dgram [5, 0, 0, 0, 2, 2, 2, 2], 20), (NoData, 30)]
   = Returns ([5, 0, 0, 0, 2, 2, 2, 2], False, 3)"
  by (simp add: readUdp_def timeout_us_200 init_state_def poll_once_def recv_def
      sequence_of_def Let_def)

section \<open>Failed construction\<close>

text \<open>
  The failure paths that do release what they hold: a failed \<^verbatim>\<open>socket\<close> call frees the
  address list, and a failed \<^verbatim>\<open>bind\<close> frees the address list and closes the socket.
\<close>

lemma ctor_socket_failure_releases:
  assumes "getaddrinfo_ok sys" and "\<not> socket_ok sys"
    and "UdpClient_ctor sys r0 = Inl (e, r)" and "UdpServer_ctor sys r0 = Inl (e', r')"
    and "\<not> socket_open r0"
  shows "\<not> addrinfo_held r \<and> \<not> socket_open r \<and> \<not> addrinfo_held r' \<and> \<not> socket_open r'"
  using assms
  by (auto simp: UdpClient_ctor_def UdpServer_ctor_def WSAStartup_def WSACleanup_def
      freeaddrinfo_def Let_def split: if_splits)

lemma UdpServer_bind_failure_releases:
  assumes "getaddrinfo_ok sys" and "socket_ok sys" and "ioctlsocket_ok sys" and "\<not> bind_ok sys"
    and "UdpServer_ctor sys r0 = Inl (e, r)"
  shows "\<not> addrinfo_held r \<and> \<not> socket_open r"
  using assms
  by (auto simp: UdpServer_ctor_def WSAStartup_def WSACleanup_def freeaddrinfo_def
      closesocket_def Let_def split: if_splits)

text \<open>
  C3. The claim: whenever construction of a \<^verbatim>\<open>UdpClient\<close> or \<^verbatim>\<open>UdpServer\<close> fails
  after some resource was acquired, the resolved address info and the socket are released
  before the exception propagates. When \<^verbatim>\<open>ioctlsocket\<close> fails, both constructors call
  only \<^verbatim>\<open>WSACleanup\<close> and throw: the address info and the open socket are still held.
\<close>

theorem ctor_nonblocking_failure_leaks:
  "UdpClient_ctor
     \<lparr>wsastartup_ok = True, getaddrinfo_ok = True, socket_ok = True,
      ioctlsocket_ok = False, bind_ok = True\<rparr>
     \<lparr>addrinfo_held = False, socket_open = False, wsa_count = 0\<rparr>
   = Inl (No_Nonblocking, \<lparr>addrinfo_held = True, socket_open = True, wsa_count = 0\<rparr>)
   \<and> UdpServer_ctor
     \<lparr>wsastartup_ok = True, getaddrinfo_ok = True, socket_ok = True,
      ioctlsocket_ok = False, bind_ok = True\<rparr>
     \<lparr>addrinfo_held = False, socket_open = False, wsa_count = 0\<rparr>
   = Inl (No_Nonblocking, \<lparr>addrinfo_held = True, socket_open = True, wsa_count = 0\<rparr>)"
  by (simp add: UdpClient_ctor_def UdpServer_ctor_def WSAStartup_def WSACleanup_def Let_def)

section \<open>The timeout window\<close>

text \<open>
  C4, as stated: for every rate above 0 the window is exactly 1.2 \<times> (1,000,000 / rate)
  microseconds. The window is a 16-bit whole number of microseconds: at 350 Hz it is
  3428, not 24000/7; at 192 Hz the double product is just below 6250 and truncates to
  6249; at 10 Hz the product 120000 does not fit \<^verbatim>\<open>uint16_t\<close> and the conversion is
  undefined.
\<close>

theorem timeout_us_not_exact:
  "timeout_us 350 = Some 3428 \<and> rat_of_nat (unat (3428 :: 16 word)) \<noteq> 6 / 5 * (1000000 / 350)
   \<and> timeout_us 192 = Some 6249 \<and> rat_of_nat (unat (6249 :: 16 word)) \<noteq> 6 / 5 * (1000000 / 192)
   \<and> timeout_us 10 = None"
  by (simp add: timeout_us_350 timeout_us_192 timeout_us_10)

text \<open>
  C4, amended: for every rate from 19 to 65535 the window is defined and is
  1.2 \<times> (1,000,000 / rate) truncated to whole microseconds, or one microsecond less
  than that, which can happen only when the rate divides 1,200,000; at 200 Hz it is 6000.
\<close>

theorem timeout_us_window:
  "19 \<le> unat udp_rate \<Longrightarrow>
     (\<exists>t. timeout_us udp_rate = Some t \<and>
        (unat t = nat \<lfloor>6 / 5 * (1000000 / rat_of_nat (unat udp_rate))\<rfloor>
         \<or> unat udp_rate dvd 1200000
           \<and> unat t = nat \<lfloor>6 / 5 * (1000000 / rat_of_nat (unat udp_rate))\<rfloor> - 1))
     \<and> timeout_us 200 = Some 6000"
proof -
  assume r: "19 \<le> unat udp_rate"
  have "\<lfloor>(of_nat 1200000 / of_nat (unat udp_rate) :: rat)\<rfloor> = int (1200000 div unat udp_rate)"
    by (rule floor_divide_of_nat_eq)
  then have "\<lfloor>6 / 5 * (1000000 / rat_of_nat (unat udp_rate))\<rfloor> = int (1200000 div unat udp_rate)"
    by simp
  then have fl: "nat \<lfloor>6 / 5 * (1000000 / rat_of_nat (unat udp_rate))\<rfloor> = 1200000 div unat udp_rate"
    by (simp only: nat_int)
  from timeout_us_range [OF r] timeout_us_200 show ?thesis
    by (simp only: fl)
qed

text \<open>C4, the amended statement at 192 Hz, where the window is 6249 or 6250.\<close>

theorem timeout_us_window_witness:
  "19 \<le> unat (192 :: 16 word)
   \<and> (\<exists>t. timeout_us 192 = Some t \<and> (unat t = 6250 \<or> unat t = 6249))"
  using timeout_us_window [of 192] by auto

section \<open>Termination within the window\<close>

text \<open>
  C5. The claim: for every rate above 0 and every arrival pattern the call returns
  within the timeout window plus a bounded per-iteration overhead. The elapsed time is
  kept in a \<^verbatim>\<open>uint16_t\<close> and wraps at 65536 microseconds. At 19 Hz the window is
  63157 microseconds; with one loop iteration every 4096 microseconds on a quiet socket
  the stored elapsed time goes from 61440 to 0, and after 17 iterations, at 69632
  microseconds, past 63157 + 4096, the call is still polling.
\<close>

theorem readUdp_slow_poll_overruns:
  "timeout_us 19 = Some 63157 \<and> steady 4096 0 (idle_ticks 4096 17)
   \<and> readUdp [0, 0, 0, 0] 19 (idle_ticks 4096 17) = Polling
   \<and> unat (63157 :: 16 word) + 4096 < snd (last (idle_ticks 4096 17))"
  by (simp add: readUdp_def timeout_us_19 init_state_def poll_once_def recv_def
      Let_def idle_ticks_def upt_rec [of _ "numeral n" for n] upt_rec [of _ "Suc n" for n])

section \<open>Size gating and the error flag\<close>

text \<open>
  C6. A receive result whose byte count differs from the fixed packet length (-1
  included) leaves the caller's buffer and the error flag as they were in that
  iteration. Over a whole call, the buffer on return is the caller's own or one of the
  size-valid datagrams received, and with no size-valid datagram the flag is true; so a
  single datagram one byte short leaves the flag true.
\<close>

theorem size_gating:
  "(length (recv_packet_temp st) = length (recv_packet st) \<longrightarrow>
      snd (recv ev (recv_packet_temp st) (length (recv_packet_temp st)))
        \<noteq> int (length (recv_packet st)) \<longrightarrow>
      recv_packet (poll_once ev st) = recv_packet st
      \<and> udp_error (poll_once ev st) = udp_error st)
   \<and> (4 \<le> length pkt \<longrightarrow> readUdp pkt udp_rate evs = Returns (pkt', err, k) \<longrightarrow>
        (pkt' = pkt \<or> pkt' \<in> set (valid_dgrams (length pkt) (take k evs)))
        \<and> (valid_dgrams (length pkt) (take k evs) = [] \<longrightarrow> err))"
proof (intro conjI impI)
  assume len: "length (recv_packet_temp st) = length (recv_packet st)"
    and ne: "snd (recv ev (recv_packet_temp st) (length (recv_packet_temp st)))
        \<noteq> int (length (recv_packet st))"
  from ne len have "\<not> size_valid (length (recv_packet st)) ev"
    using recv_full_length [of ev "recv_packet_temp st"] by simp
  with len show "recv_packet (poll_once ev st) = recv_packet st"
    and "udp_error (poll_once ev st) = udp_error st"
    by (simp_all add: poll_once_rejects)
next
  assume r: "readUdp pkt udp_rate evs = Returns (pkt', err, k)"
  then obtain t st' where loop: "readUdp_loop t evs (init_state pkt) = Some (st', k)"
    and res: "pkt' = recv_packet st'" "err = udp_error st'"
    by (rule readUdp_Returns)
  from loop_buffer_origin [OF loop] res
  show "pkt' = pkt \<or> pkt' \<in> set (valid_dgrams (length pkt) (take k evs))"
    by (simp add: init_state_simps)
  assume "valid_dgrams (length pkt) (take k evs) = []"
  with loop_no_valid [OF loop] res show err
    by (simp add: init_state_simps valid_dgrams_empty_iff)
qed

text \<open>C6 on 8-byte packets: one 7-byte datagram, then silence.\<close>

theorem size_gating_witness:
  "udp_error (poll_once (Dgram [9, 9, 9, 9, 9, 9, 9]) (init_state [0, 0, 0, 0, 0, 0, 0, 0]))
   \<and> recv_packet (poll_once (Dgram [9, 9, 9, 9, 9, 9, 9]) (init_state [0, 0, 0, 0, 0, 0, 0, 0]))
       = [0, 0, 0, 0, 0, 0, 0, 0]
   \<and> readUdp [0, 0, 0, 0, 0, 0, 0, 0] 200 [(Dgram [9, 9, 9, 9, 9, 9, 9], 10), (NoData, 7000)]
       = Returns ([0, 0, 0, 0, 0, 0, 0, 0], True, 2)
   \<and> valid_dgrams 8 (take 2 [(Dgram [9, 9, 9, 9, 9, 9, 9], 10), (NoData, 7000)]) = []"
proof -
  let ?P0 = "[0, 0, 0, 0, 0, 0, 0, 0] :: packet"
  let ?D7 = "[9, 9, 9, 9, 9, 9, 9] :: packet"
  let ?evs = "[(Dgram ?D7, 10), (NoData, 7000)] :: event list"
  have run: "readUdp ?P0 200 ?evs = Returns (?P0, True, 2)"
    by (simp add: readUdp_def timeout_us_200 init_state_def poll_once_def recv_def Let_def)
  have h: "length (recv_packet_temp (init_state ?P0)) = length (recv_packet (init_state ?P0))"
    "snd (recv (Dgram ?D7) (recv_packet_temp (init_state ?P0))
            (length (recv_packet_temp (init_state ?P0))))
       \<noteq> int (length (recv_packet (init_state ?P0)))"
    "4 \<le> length ?P0"
    by (simp_all add: init_state_def recv_def)
  from size_gating [of "init_state ?P0" "Dgram ?D7" ?P0 200 ?evs ?P0 True 2] h run
  show ?thesis
    by (simp add: init_state_simps)
qed

text \<open>
  C7. While the loop is running, once the error flag is false and a receive attempt
  returns -1, the loop ends in that iteration, whatever the clock says and whatever
  is still to come.
\<close>

theorem idle_early_exit:
  assumes "\<not> udp_error st"
    and "snd (recv ev (recv_packet_temp st) (length (recv_packet_temp st))) = - 1"
    and "elapsed_time_us st < timeout"
  shows "readUdp_loop timeout ((ev, clk) # evs) st = Some (poll_once ev st, 1)"
proof -
  from assms(2) have "sint (bytes_received (poll_once ev st)) = - 1"
    by (simp add: poll_once_bytes)
  moreover from assms(1) have "\<not> udp_error (poll_once ev st)"
    by (rule poll_once_error_mono)
  ultimately show ?thesis
    using assms(3) by simp
qed

text \<open>C7 after one good 8-byte packet at 200 Hz: the next empty poll ends the loop.\<close>

theorem idle_early_exit_witness:
  "readUdp_loop 6000 [(NoData, 10), (Dgram [3, 0, 0, 0, 2, 2, 2, 2], 20)]
     (poll_once (Dgram [5, 0, 0, 0, 1, 1, 1, 1]) (init_state [0, 0, 0, 0, 0, 0, 0, 0]))
   = Some (poll_once NoData
       (poll_once (Dgram [5, 0, 0, 0, 1, 1, 1, 1]) (init_state [0, 0, 0, 0, 0, 0, 0, 0])), 1)"
proof -
  let ?st = "poll_once (Dgram [5, 0, 0, 0, 1, 1, 1, 1]) (init_state [0, 0, 0, 0, 0, 0, 0, 0])"
  have h: "\<not> udp_error ?st"
    "snd (recv NoData (recv_packet_temp ?st) (length (recv_packet_temp ?st))) = - 1"
    "elapsed_time_us ?st < 6000"
    by (simp_all add: init_state_def poll_once_def recv_def sequence_of_def Let_def)
  show ?thesis
    by (rule idle_early_exit [OF h])
qed

text \<open>
  C8. The claim: the returned flag is true exactly when no datagram of the expected
  length was received. With 32768-byte packets at 200 Hz, a datagram of exactly 32768
  bytes is received and the call still returns true: the byte count narrowed to
  \<^verbatim>\<open>int16_t\<close> is -32768 and fails the comparison with \<^verbatim>\<open>recv_packet.size()\<close>.
\<close>

theorem readUdp_large_packet_flagged:
  "readUdp (replicate 32768 0) 200 [(Dgram (replicate 32768 1), 10), (NoData, 7000)]
     = Returns (replicate 32768 0, True, 2)
   \<and> valid_dgrams 32768 (take 2 [(Dgram (replicate 32768 1), 10), (NoData, 7000)])
     = [replicate 32768 1]"
  by (simp add: readUdp_def timeout_us_200 init_state_def poll_once_def recv_def Let_def)

text \<open>
  C9. The claim: if no size-valid datagram arrives during the call, it returns with the
  error flag true and the caller's buffer unchanged. At 19 Hz, on a socket that
  delivers nothing and with one loop iteration every 4096 microseconds, the call has
  not returned after any number of iterations: the 16-bit elapsed time never reaches
  the window of 63157.
\<close>

theorem readUdp_quiet_slow_poll_never_returns:
  "readUdp pkt 19 (idle_ticks 4096 n) = Polling
   \<and> valid_dgrams (length pkt) (idle_ticks 4096 n) = []"
proof -
  have "readUdp pkt 19 (idle_ticks 4096 n) = Polling"
    using slow_poll_loop [of "init_state pkt" 0 n]
    by (simp add: readUdp_def timeout_us_19 idle_ticks_def init_state_def del: upt_Suc)
  moreover have "valid_dgrams (length pkt) (idle_ticks 4096 n) = []"
    by (auto simp: valid_dgrams_empty_iff idle_ticks_def size_valid_def)
  ultimately show ?thesis
    by simp
qed

section \<open>Sequence number zero\<close>

text \<open>
  C10. The claim: a size-valid packet with sequence number 0 sets the error flag to
  false and is not copied, so a call can return false with the caller's buffer
  untouched. With 32768-byte packets at 200 Hz, a size-valid packet with sequence
  number 0 leaves the flag true: it fails the narrowed size test, and the call
  returns true.
\<close>

theorem readUdp_large_zero_sequence_flagged:
  "readUdp (replicate 32768 1) 200 [(Dgram (replicate 32768 0), 10), (NoData, 7000)]
     = Returns (replicate 32768 1, True, 2)
   \<and> sequence_of (replicate 32768 0) = 0 \<and> length (replicate 32768 (0 :: byte)) = 32768"
proof -
  have "replicate 4 (0 :: byte) = [0, 0, 0, 0]"
    by (simp add: numeral_eq_Suc)
  then have "sequence_of (replicate 32768 0) = 0"
    by (simp add: sequence_of_def)
  then show ?thesis
    by (simp add: readUdp_def timeout_us_200 init_state_def poll_once_def recv_def Let_def)
qed

end
